theory Spec2Isabelle
  imports Main
begin

section \<open>Strings, arrays and POSIX paths\<close>

text \<open>
  Strings and buffers are byte lists (\<open>string\<close>); paths are ASCII. \<open>array_join\<close> is
  JavaScript's \<open>Array.prototype.join\<close>.
\<close>

fun array_join :: "string \<Rightarrow> string list \<Rightarrow> string" where
  "array_join sep [] = []"
| "array_join sep [x] = x"
| "array_join sep (x # y # ys) = x @ sep @ array_join sep (y # ys)"

text \<open>
  \<open>path.join\<close> and \<open>path.normalize\<close> belong to the Node.js runtime, not to the
  repository; they are modelled after the POSIX implementation: the non-empty arguments are
  glued with \<open>/\<close>, the result is cut at \<open>/\<close>, empty and \<open>.\<close> segments are dropped, a
  \<open>..\<close> removes the segment before it (or stays, for a relative path that climbs above its
  start), and a leading and a trailing \<open>/\<close> are kept.
\<close>

fun split_slash :: "string \<Rightarrow> string \<Rightarrow> string list" where
  "split_slash cur [] = [rev cur]"
| "split_slash cur (c # cs) =
     (if c = CHR ''/'' then rev cur # split_slash [] cs else split_slash (c # cur) cs)"

fun normalizeString :: "bool \<Rightarrow> string list \<Rightarrow> string list \<Rightarrow> string list" where
  "normalizeString allowAboveRoot [] res = rev res"
| "normalizeString allowAboveRoot (s # ss) res =
     (if s = [] \<or> s = ''.'' then normalizeString allowAboveRoot ss res
      else if s = ''..'' then
        (if res \<noteq> [] \<and> hd res \<noteq> ''..'' then normalizeString allowAboveRoot ss (tl res)
         else if allowAboveRoot then normalizeString allowAboveRoot ss (''..'' # res)
         else normalizeString allowAboveRoot ss res)
      else normalizeString allowAboveRoot ss (s # res))"

definition path_normalize :: "string \<Rightarrow> string" where
  "path_normalize p =
     (if p = [] then ''.''
      else
        let isAbsolute = (hd p = CHR ''/'');
            trailingSeparator = (last p = CHR ''/'');
            q = array_join ''/'' (normalizeString (\<not> isAbsolute) (split_slash [] p) [])
        in if q = [] then (if isAbsolute then ''/'' else if trailingSeparator then ''./'' else ''.'')
           else (if isAbsolute then ''/'' else []) @ q @ (if trailingSeparator then ''/'' else []))"

definition path_join :: "string list \<Rightarrow> string" where
  "path_join args =
     (let joined = filter (\<lambda>a. a \<noteq> []) args
      in if joined = [] then ''.'' else path_normalize (array_join ''/'' joined))"

section \<open>Builds and their traversals (build-repr)\<close>

text \<open>
  A \<open>Build\<close> object with its \<open>dependencies\<close> array. The objects are immutable once
  parsed, so a build is the finite tree of its dependencies; an object shared by several
  parents occurs once under each of them, and a finite tree has no cycle. The selectors
  \<open>id\<close>, \<open>name\<close> and \<open>version\<close> carry the suffix \<open>_of\<close>; the last field of an export
  is written without its leading underscores.
\<close>

record EnvironmentVarExport =
  val :: string
  scope :: "string option"
  exclusive :: "bool option"
  BUILT_IN_DO_NOT_USE_OR_YOU_WILL_BE_PIPd :: "bool option"

datatype Build = Build
  (id_of: string)
  (name_of: string)
  (version_of: string)
  (command: "string list option")
  (exportedEnv: "(string \<times> EnvironmentVarExport) list")
  (sourcePath: string)
  (mutatesSourcePath: bool)
  (shouldBePersisted: bool)
  (dependencies: "Build list")
  (errors: "string list")

lemma deps_size: "d \<in> set (dependencies b) \<Longrightarrow> size d < size b"
  by (cases b) (auto simp: less_Suc_eq_le size_list_estimation')

lemma deps_sum_size: "sum_list (map size (dependencies b)) < size b"
  by (cases b) (simp add: size_list_conv_sum_list)

lemma deps_sum_size2: "Suc (2 * sum_list (map size (dependencies b))) < 2 * size b"
  using deps_sum_size [of b] by arith

lemma build_size_pos: "0 < size (b :: Build)"
  by (cases b) simp

text \<open>
  \<open>traverse\<close> is the breadth-first loop: \<open>seen\<close> is the set of ids, the queue is a list
  (\<open>shift\<close> takes its head, \<open>push\<close> appends). The visitor \<open>f\<close> acts on a state of any
  type, which the traversal passes from call to call.
\<close>

function traverse_loop :: "(Build \<Rightarrow> 's \<Rightarrow> 's) \<Rightarrow> string set \<Rightarrow> Build list \<Rightarrow> 's \<Rightarrow> 's" where
  "traverse_loop f seen [] st = st"
| "traverse_loop f seen (cur # queue) st =
     (if id_of cur \<in> seen then traverse_loop f seen queue st
      else traverse_loop f (insert (id_of cur) seen) (queue @ dependencies cur) (f cur st))"
  by pat_completeness auto
termination
  by (relation "measure (\<lambda>(f, seen, queue, st). sum_list (map size queue))")
     (auto simp: deps_sum_size build_size_pos)

definition traverse :: "Build \<Rightarrow> (Build \<Rightarrow> 's \<Rightarrow> 's) \<Rightarrow> 's \<Rightarrow> 's" where
  "traverse build f st = traverse_loop f {} [build] st"

text \<open>
  \<open>traverseDeepFirst\<close>: the inner function \<open>traverse\<close> of the source, with the set \<open>seen\<close>
  it closes over passed along with the visitor's state.
\<close>

function traverseDeepFirst_traverse ::
  "(Build \<Rightarrow> 's \<Rightarrow> 's) \<Rightarrow> Build \<Rightarrow> string set \<times> 's \<Rightarrow> string set \<times> 's" where
  "traverseDeepFirst_traverse f build (seen, st) =
     (if id_of build \<in> seen then (seen, st)
      else case fold (traverseDeepFirst_traverse f) (dependencies build)
                  (insert (id_of build) seen, st) of
             (seen', st') \<Rightarrow> (seen', f build st'))"
  by pat_completeness auto
termination
  by (relation "measure (\<lambda>(f, build, s). size build)") (auto simp: deps_size)

declare traverseDeepFirst_traverse.simps [simp del]

definition traverseDeepFirst :: "Build \<Rightarrow> (Build \<Rightarrow> 's \<Rightarrow> 's) \<Rightarrow> 's \<Rightarrow> 's" where
  "traverseDeepFirst build f st = snd (traverseDeepFirst_traverse f build ({}, st))"

text \<open>
  \<open>collectTransitiveDependencies\<close> pushes every visited build but the root. The source
  compares object references (\<open>cur !== build\<close>); the model compares the builds. The two
  agree: the root is visited first, and no later visit has its id.
\<close>

definition collectTransitiveDependencies :: "Build \<Rightarrow> Build list" where
  "collectTransitiveDependencies build =
     traverse build
       (\<lambda>cur dependencies'. if cur \<noteq> build then dependencies' @ [cur] else dependencies') []"

text \<open>The builds a visitor is called on, in the order of the calls.\<close>

definition traverse_order :: "Build \<Rightarrow> Build list" where
  "traverse_order build = traverse build (\<lambda>cur visited. visited @ [cur]) []"

definition traverseDeepFirst_order :: "Build \<Rightarrow> Build list" where
  "traverseDeepFirst_order build = traverseDeepFirst build (\<lambda>cur visited. visited @ [cur]) []"

section \<open>Path scheme (build-config)\<close>

record BuildConfig =
  storePath :: string
  sandboxPath :: string
  getSourcePath :: "Build \<Rightarrow> string list \<Rightarrow> string"
  getRootPath :: "Build \<Rightarrow> string list \<Rightarrow> string"
  getBuildPath :: "Build \<Rightarrow> string list \<Rightarrow> string"
  getInstallPath :: "Build \<Rightarrow> string list \<Rightarrow> string"
  getFinalInstallPath :: "Build \<Rightarrow> string list \<Rightarrow> string"

definition genPath :: "string \<Rightarrow> string \<Rightarrow> Build \<Rightarrow> string \<Rightarrow> string list \<Rightarrow> string" where
  "genPath storePath' sandboxLocalStorePath build tree segments =
     (if shouldBePersisted build
      then path_join ([storePath', tree, id_of build] @ segments)
      else path_join ([sandboxLocalStorePath, tree, id_of build] @ segments))"

definition createConfig :: "string \<Rightarrow> string \<Rightarrow> BuildConfig" where
  "createConfig storePath' sandboxPath' =
     (let sandboxLocalStorePath = path_join [sandboxPath', ''_esy'', ''store''];
          gen = genPath storePath' sandboxLocalStorePath
      in \<lparr> storePath = storePath',
           sandboxPath = sandboxPath',
           getSourcePath = (\<lambda>build segments.
             path_join ([sandboxPath', sourcePath build] @ segments)),
           getRootPath = (\<lambda>build segments.
             if mutatesSourcePath build then gen build ''_build'' segments
             else path_join ([sandboxPath', sourcePath build] @ segments)),
           getBuildPath = (\<lambda>build segments. gen build ''_build'' segments),
           getInstallPath = (\<lambda>build segments. gen build ''_insttmp'' segments),
           getFinalInstallPath = (\<lambda>build segments. gen build ''_install'' segments) \<rparr>)"

section \<open>Findlib configuration and environment rendering\<close>

text \<open>
  \<open>findLibPath\<close> is the local constant of that name in \<open>renderFindlibConf\<close> (and, word for
  word, in \<open>visitBuild\<close> of the ejecting builder, which passes the config made of the two
  placeholder strings). The template is dedented to eight lines joined by newlines.
\<close>

definition findLibPath :: "Build \<Rightarrow> BuildConfig \<Rightarrow> string" where
  "findLibPath build config =
     (let allDependencies = collectTransitiveDependencies build;
          findLibDestination = getInstallPath config build [''lib'']
      in array_join '':''
           (map (\<lambda>dep. getFinalInstallPath config dep [''lib'']) allDependencies
            @ [findLibDestination]))"

definition renderFindlibConf :: "Build \<Rightarrow> BuildConfig \<Rightarrow> string" where
  \<open>renderFindlibConf build config =
     array_join [CHR 0x0A]
       [''path = "'' @ findLibPath build config @ ''"'',
        ''destdir = "'' @ getInstallPath config build [''lib''] @ ''"'',
        ''ldconf = "ignore"'',
        ''ocamlc = "ocamlc.opt"'',
        ''ocamldep = "ocamldep.opt"'',
        ''ocamldoc = "ocamldoc.opt"'',
        ''ocamllex = "ocamllex.opt"'',
        ''ocamlopt = "ocamlopt.opt"'']\<close>


text \<open>
  An environment variable has a \<open>name\<close> and a \<open>value\<close> that may be null (fields \<open>var_name\<close>
  and \<open>var_value\<close>); \<open>renderEnv\<close> reads the \<open>envVars\<close> of each group. A template literal
  prints a null as the word \<open>null\<close>.
\<close>

record EnvironmentVar =
  var_name :: string
  var_value :: "string option"

record EnvironmentGroup =
  envVars :: "EnvironmentVar list"

definition flattenArray :: "'a list list \<Rightarrow> 'a list" where
  "flattenArray arrayOfArrays = concat arrayOfArrays"

definition renderEnv :: "EnvironmentGroup list \<Rightarrow> string" where
  \<open>renderEnv groups =
     (let env = flattenArray (map envVars groups)
      in array_join [CHR 0x0A]
           (map (\<lambda>e. ''export '' @ var_name e @ ''="''
                      @ (case var_value e of Some v \<Rightarrow> v | None \<Rightarrow> ''null'') @ ''";'')
              (filter (\<lambda>e. var_value e \<noteq> None) env)))\<close>

section \<open>Package-name normalization (util)\<close>

text \<open>
  Names are ASCII: \<open>toLowerCase\<close> maps \<open>A\<close>..\<open>Z\<close> to \<open>a\<close>..\<open>z\<close>. \<open>replace_char c by\<close> is
  \<open>replace(/c/g, by)\<close>; \<open>replace_underscores\<close> is \<open>replace(/_+/g, matched => matched + '__')\<close>:
  it copies the string and puts two more underscores where a maximal run of underscores
  ends (the flag says that the scan is inside a run).
\<close>

definition toLowerCase_char :: "char \<Rightarrow> char" where
  "toLowerCase_char c =
     (let n = of_char c :: nat in if 65 \<le> n \<and> n \<le> 90 then char_of (n + 32) else c)"

definition toLowerCase :: "string \<Rightarrow> string" where
  "toLowerCase s = map toLowerCase_char s"

definition replace_char :: "char \<Rightarrow> string \<Rightarrow> string \<Rightarrow> string" where
  "replace_char c by s = concat (map (\<lambda>x. if x = c then by else [x]) s)"

fun replace_underscores :: "bool \<Rightarrow> string \<Rightarrow> string" where
  "replace_underscores matching [] = (if matching then ''__'' else [])"
| "replace_underscores matching (c # cs) =
     (if c = CHR ''_'' then c # replace_underscores True cs
      else (if matching then ''__'' else []) @ c # replace_underscores False cs)"

definition normalizePackageName :: "string \<Rightarrow> string" where
  "normalizePackageName name =
     replace_char CHR ''-'' ''_''
       (replace_char CHR ''.'' ''__dot__''
          (replace_char CHR ''/'' ''__slash__''
             (replace_underscores False
                (replace_char CHR ''@'' [] (toLowerCase name)))))"

section \<open>The file system and asynchronous calls\<close>

text \<open>
  Modelled from the spec: the helpers of \<open>util/fs\<close> (\<open>exists\<close>, \<open>mkdirp\<close>, \<open>writeFile\<close>,
  \<open>rename\<close>, \<open>walk\<close>, \<open>stat\<close>, \<open>readFileBuffer\<close>) and \<open>rimraf\<close>, which the builder imports
  from modules outside the verified files. They are modelled as the build protocol names
  them (recursive removal, creation of a directory with its parents, recursive walk,
  rename of a directory) and as the Node.js calls they wrap behave. A file system is an
  association list from paths to nodes, in the order of creation; a node is a regular
  file (contents and mode) or a directory. Symbolic links are not modelled. \<open>inside p q\<close>
  says that \<open>q\<close> is \<open>p\<close> or lies below it.
\<close>

datatype js_error = ReferenceError string | TypeError string | Error string

datatype node = File (content: string) (mode: nat) | Dir

type_synonym filesystem = "(string \<times> node) list"

definition inside :: "string \<Rightarrow> string \<Rightarrow> bool" where
  "inside p q = (q = p \<or> take (length p + 1) q = p @ ''/'')"

fun dir_prefixes :: "string \<Rightarrow> string \<Rightarrow> string list" where
  "dir_prefixes seen [] = (if seen = [] then [] else [rev seen])"
| "dir_prefixes seen (c # cs) =
     (if c = CHR ''/'' \<and> seen \<noteq> [] then rev seen # dir_prefixes (c # seen) cs
      else dir_prefixes (c # seen) cs)"

definition dirname :: "string \<Rightarrow> string" where
  "dirname p = rev (drop 1 (dropWhile (\<lambda>c. c \<noteq> CHR ''/'') (rev p)))"

definition parent_exists :: "filesystem \<Rightarrow> string \<Rightarrow> bool" where
  "parent_exists fs p = (dirname p = [] \<or> map_of fs (dirname p) = Some Dir)"

definition existsSync :: "filesystem \<Rightarrow> string \<Rightarrow> bool" where
  "existsSync fs p = (map_of fs p \<noteq> None)"

definition exists_op :: "string \<Rightarrow> filesystem \<Rightarrow> js_error + bool \<times> filesystem" where
  "exists_op p fs = Inr (existsSync fs p, fs)"

definition rimraf_op :: "string \<Rightarrow> filesystem \<Rightarrow> js_error + unit \<times> filesystem" where
  "rimraf_op p fs = Inr ((), filter (\<lambda>e. \<not> inside p (fst e)) fs)"

definition mkdir_op :: "string \<Rightarrow> filesystem \<Rightarrow> js_error + filesystem" where
  "mkdir_op d fs =
     (case map_of fs d of
        None \<Rightarrow> Inr (fs @ [(d, Dir)])
      | Some Dir \<Rightarrow> Inr fs
      | Some (File c m) \<Rightarrow> Inl (Error ''EEXIST''))"

definition mkdirp_op :: "string \<Rightarrow> filesystem \<Rightarrow> js_error + unit \<times> filesystem" where
  "mkdirp_op p fs =
     (case fold (\<lambda>d r. case r of Inl e \<Rightarrow> Inl e | Inr fs' \<Rightarrow> mkdir_op d fs') (dir_prefixes [] p) (Inr fs) of
        Inl e \<Rightarrow> Inl e
      | Inr fs' \<Rightarrow> Inr ((), fs'))"

definition writeFile_op :: "string \<Rightarrow> string \<Rightarrow> filesystem \<Rightarrow> js_error + unit \<times> filesystem" where
  "writeFile_op p data fs =
     (case map_of fs p of
        Some Dir \<Rightarrow> Inl (Error ''EISDIR'')
      | Some (File c m) \<Rightarrow> Inr ((), map (\<lambda>e. if fst e = p then (p, File data m) else e) fs)
      | None \<Rightarrow> if parent_exists fs p then Inr ((), fs @ [(p, File data 420)]) else Inl (Error ''ENOENT''))"

definition rename_op :: "string \<Rightarrow> string \<Rightarrow> filesystem \<Rightarrow> js_error + unit \<times> filesystem" where
  "rename_op a b fs =
     (if map_of fs a = None \<or> \<not> parent_exists fs b then Inl (Error ''ENOENT'')
      else if filter (\<lambda>e. fst e \<noteq> b \<and> inside b (fst e)) fs \<noteq> [] then Inl (Error ''ENOTEMPTY'')
      else Inr ((), map (\<lambda>e. if inside a (fst e) then (b @ drop (length a) (fst e), snd e) else e)
                      (filter (\<lambda>e. fst e \<noteq> b) fs)))"

record walked =
  relative :: string
  absolute :: string

definition walk_op :: "string \<Rightarrow> filesystem \<Rightarrow> js_error + walked list \<times> filesystem" where
  "walk_op p fs =
     (case map_of fs p of
        None \<Rightarrow> Inl (Error ''ENOENT'')
      | Some (File c m) \<Rightarrow> Inl (Error ''ENOTDIR'')
      | Some Dir \<Rightarrow>
          Inr (map (\<lambda>e. \<lparr>relative = drop (length p + 1) (fst e), absolute = fst e\<rparr>)
                 (filter (\<lambda>e. fst e \<noteq> p \<and> inside p (fst e)) fs), fs))"

definition stat_op :: "string \<Rightarrow> filesystem \<Rightarrow> js_error + node \<times> filesystem" where
  "stat_op p fs = (case map_of fs p of None \<Rightarrow> Inl (Error ''ENOENT'') | Some n \<Rightarrow> Inr (n, fs))"

definition isFile :: "node \<Rightarrow> bool" where
  "isFile n = (case n of File c m \<Rightarrow> True | Dir \<Rightarrow> False)"

definition readFile_op :: "string \<Rightarrow> filesystem \<Rightarrow> js_error + string \<times> filesystem" where
  "readFile_op p fs =
     (case map_of fs p of
        None \<Rightarrow> Inl (Error ''ENOENT'')
      | Some Dir \<Rightarrow> Inl (Error ''EISDIR'')
      | Some (File c m) \<Rightarrow> Inr (c, fs))"

text \<open>
  \<open>Buffer.indexOf\<close> gives the offset of the first occurrence or \<open>-1\<close>; \<open>Buffer.write\<close>
  overwrites in place from the offset and never grows the buffer.
\<close>

fun buffer_indexOf :: "string \<Rightarrow> string \<Rightarrow> int" where
  "buffer_indexOf [] v = (if v = [] then 0 else - 1)"
| "buffer_indexOf (c # cs) v =
     (if take (length v) (c # cs) = v then 0
      else let i = buffer_indexOf cs v in if i = - 1 then - 1 else i + 1)"

definition buffer_write :: "string \<Rightarrow> string \<Rightarrow> nat \<Rightarrow> string" where
  "buffer_write buf s offset =
     take offset buf @ take (length buf - offset) s @ drop (offset + length s) buf"

text \<open>
  A call that leaves the process is recorded as an event, in the order in which the calls
  are issued, and takes effect when it is issued. An asynchronous function is a function
  from the world (the files and the events so far) to its outcome and the new world:
  \<open>io_bind\<close> is \<open>await\<close> (or \<open>.then\<close>), an exception ends the function with the effects
  made so far. \<open>promise_all\<close> issues every call and fails if one of them failed.
\<close>

datatype event =
    Exists string
  | Rimraf string
  | Mkdirp string
  | Spawn string "string list"
  | WriteFile string
  | Exec string string
  | Walk string
  | Stat string
  | ReadFile string
  | Rename string string

record world =
  files :: filesystem
  events :: "event list"

type_synonym 'a io = "world \<Rightarrow> (js_error + 'a) \<times> world"

definition io_return :: "'a \<Rightarrow> 'a io" where
  "io_return a = (\<lambda>w. (Inr a, w))"

definition io_bind :: "'a io \<Rightarrow> ('a \<Rightarrow> 'b io) \<Rightarrow> 'b io" where
  "io_bind m k = (\<lambda>w. case m w of (Inl e, w') \<Rightarrow> (Inl e, w') | (Inr a, w') \<Rightarrow> k a w')"

definition io_throw :: "js_error \<Rightarrow> 'a io" where
  "io_throw e = (\<lambda>w. (Inl e, w))"

definition fs_call :: "event \<Rightarrow> (filesystem \<Rightarrow> js_error + 'a \<times> filesystem) \<Rightarrow> 'a io" where
  "fs_call ev op =
     (\<lambda>w. case op (files w) of
        Inl e \<Rightarrow> (Inl e, w\<lparr>events := events w @ [ev]\<rparr>)
      | Inr (a, fs') \<Rightarrow> (Inr a, \<lparr>files = fs', events = events w @ [ev]\<rparr>))"

fun promise_all :: "unit io list \<Rightarrow> unit io" where
  "promise_all [] = io_return ()"
| "promise_all (m # ms) =
     (\<lambda>w. case m w of (r, w') \<Rightarrow>
        (case promise_all ms w' of (r', w'') \<Rightarrow>
           (case r of Inl e \<Rightarrow> (Inl e, w'') | Inr u \<Rightarrow> (r', w''))))"

text \<open>
  A promise that is never awaited: \<open>not_awaited m\<close> issues \<open>m\<close>, keeps its effects and
  drops its outcome. \<open>await_before m pending\<close> is \<open>await m\<close> in a function that has chained
  \<open>pending\<close> on a resolved promise without awaiting it: a \<open>.then\<close> callback runs no earlier
  than the next suspension of the running function, so the call \<open>m\<close> is issued first, then
  \<open>pending\<close> runs, and the function continues with the outcome of \<open>m\<close> alone.
\<close>

definition not_awaited :: "'a io \<Rightarrow> unit io" where
  "not_awaited m = (\<lambda>w. (Inr (), snd (m w)))"

definition await_before :: "'a io \<Rightarrow> unit io \<Rightarrow> 'a io" where
  "await_before m pending = (\<lambda>w. case m w of (r, w') \<Rightarrow> (r, snd (pending w')))"

section \<open>The in-process builder (simple-builder)\<close>

text \<open>
  Modelled from the spec: \<open>Env.calculateEnvironment\<close>, \<open>child.exec\<close> and \<open>child.spawn\<close>
  are imported from modules outside the verified files, and what a command does is up
  to the package. They are parameters of the builder: the composition of the environment
  (which may throw), the effect of a shell command (command text, working directory) and
  of a spawned program (program, arguments) on the file system.
\<close>

record host =
  calculateEnvironment :: "BuildConfig \<Rightarrow> Build \<Rightarrow> EnvironmentVar list \<Rightarrow> js_error + EnvironmentGroup list"
  child_exec :: "string \<Rightarrow> string \<Rightarrow> filesystem \<Rightarrow> js_error + filesystem"
  child_spawn :: "string \<Rightarrow> string list \<Rightarrow> filesystem \<Rightarrow> js_error + filesystem"

record BuildSandbox =
  env :: "EnvironmentVar list"
  root :: Build

definition INSTALL_DIRS :: "string list" where
  "INSTALL_DIRS = [''lib'', ''bin'', ''sbin'', ''man'', ''doc'', ''share'', ''stublibs'', ''etc'']"

definition BUILD_DIRS :: "string list" where
  "BUILD_DIRS = [''_esy'']"

definition fs_exists :: "string \<Rightarrow> bool io" where
  "fs_exists p = fs_call (Exists p) (exists_op p)"

definition rmtree :: "string \<Rightarrow> unit io" where
  "rmtree p = fs_call (Rimraf p) (rimraf_op p)"

definition fs_mkdirp :: "string \<Rightarrow> unit io" where
  "fs_mkdirp p = fs_call (Mkdirp p) (mkdirp_op p)"

definition fs_writeFile :: "string \<Rightarrow> string \<Rightarrow> unit io" where
  "fs_writeFile p data = fs_call (WriteFile p) (writeFile_op p data)"

definition fs_rename :: "string \<Rightarrow> string \<Rightarrow> unit io" where
  "fs_rename a b = fs_call (Rename a b) (rename_op a b)"

definition fs_walk :: "string \<Rightarrow> walked list io" where
  "fs_walk p = fs_call (Walk p) (walk_op p)"

definition fs_stat :: "string \<Rightarrow> node io" where
  "fs_stat p = fs_call (Stat p) (stat_op p)"

definition fs_readFileBuffer :: "string \<Rightarrow> string io" where
  "fs_readFileBuffer p = fs_call (ReadFile p) (readFile_op p)"

definition rsync :: "host \<Rightarrow> string \<Rightarrow> string \<Rightarrow> unit io" where
  "rsync h from to =
     (let from' = (if from \<noteq> [] \<and> last from = CHR ''/'' then from else from @ ''/'');
          args = [''--archive'', from', to]
      in fs_call (Spawn ''rsync'' args)
           (\<lambda>fs. case child_spawn h ''rsync'' args fs of Inl e \<Rightarrow> Inl e | Inr fs' \<Rightarrow> Inr ((), fs')))"


definition exec_command :: "host \<Rightarrow> string \<Rightarrow> string \<Rightarrow> string \<Rightarrow> unit io" where
  "exec_command h envPath rootPath c =
     (let command' = ''source '' @ envPath @ '';'' @ [CHR 0x0A] @ c
      in fs_call (Exec command' rootPath)
           (\<lambda>fs. case child_exec h command' rootPath fs of Inl e \<Rightarrow> Inl e | Inr fs' \<Rightarrow> Inr ((), fs')))"

fun exec_commands :: "host \<Rightarrow> string \<Rightarrow> string \<Rightarrow> string list \<Rightarrow> unit io" where
  "exec_commands h envPath rootPath [] = io_return ()"
| "exec_commands h envPath rootPath (c # cs) =
     io_bind (exec_command h envPath rootPath c) (\<lambda>u. exec_commands h envPath rootPath cs)"

text \<open>
  One rewrite task of \<open>performBuild\<close>: the write is issued without \<open>await\<close>.
  \<open>rewrite_chain\<close> is the \<open>forEach\<close> that chains the tasks on \<open>rewriteInProgress\<close>: a task
  starts when the one before it is done, and none after one that failed.
\<close>

definition rewrite_task :: "string \<Rightarrow> string \<Rightarrow> walked \<Rightarrow> unit io" where
  "rewrite_task origPath destPath file =
     io_bind (fs_stat (absolute file)) (\<lambda>st.
       if \<not> isFile st then io_return ()
       else io_bind (fs_readFileBuffer (absolute file)) (\<lambda>content'.
         let offset = buffer_indexOf content' origPath
         in if offset > - 1
            then not_awaited (fs_writeFile (absolute file) (buffer_write content' destPath (nat offset)))
            else io_return ()))"

definition rewrite_chain :: "unit io list \<Rightarrow> unit io" where
  "rewrite_chain tasks = fold (\<lambda>task rewriteInProgress. io_bind rewriteInProgress (\<lambda>u. task)) tasks (io_return ())"

text \<open>
  \<open>performBuild\<close>, in two parts: \<open>performBuild\<close> is the function up to the creation of
  the directories, \<open>performBuild_run\<close> is the rest of its body, from the copy of the
  sources on. The test of the cache asks the file system only for a persisted build
  (\<open>&&\<close>). With a command, the function ends by chaining the rewrite tasks and awaiting
  the rename; it never awaits \<open>rewriteInProgress\<close>.
\<close>

definition performBuild_run :: "host \<Rightarrow> Build \<Rightarrow> BuildConfig \<Rightarrow> BuildSandbox \<Rightarrow> unit io" where
  "performBuild_run h build config sandbox =
     (let rootPath = getRootPath config build [];
          buildPath = getBuildPath config build []
      in io_bind (if mutatesSourcePath build
                  then rsync h (path_join [sandboxPath config, sourcePath build])
                         (getBuildPath config build [])
                  else io_return ()) (\<lambda>u.
         io_bind (case calculateEnvironment h config build (env sandbox) of
                    Inl e \<Rightarrow> io_throw e | Inr groups \<Rightarrow> io_return groups) (\<lambda>env'.
         let envPath = path_join [buildPath, ''_esy'', ''env''] in
         io_bind (fs_writeFile envPath (renderEnv env')) (\<lambda>u.
         io_bind (fs_writeFile (path_join [buildPath, ''_esy'', ''findlib.conf''])
                    (renderFindlibConf build config)) (\<lambda>u.
         io_bind (case command build of
                    None \<Rightarrow> io_return (io_return ())
                  | Some commands \<Rightarrow>
                      io_bind (exec_commands h envPath rootPath commands) (\<lambda>u.
                      io_bind (fs_walk (getInstallPath config build [])) (\<lambda>files'.
                      let origPath = getInstallPath config build [];
                          destPath = getFinalInstallPath config build []
                      in io_return
                           (rewrite_chain (map (rewrite_task origPath destPath) files'))))) (\<lambda>rewriteInProgress.
         await_before
           (fs_rename (getInstallPath config build []) (getFinalInstallPath config build []))
           rewriteInProgress))))))"

definition performBuild :: "host \<Rightarrow> Build \<Rightarrow> BuildConfig \<Rightarrow> BuildSandbox \<Rightarrow> unit io" where
  "performBuild h build config sandbox =
     io_bind (if shouldBePersisted build then fs_exists (getFinalInstallPath config build [])
              else io_return False) (\<lambda>cached.
       if cached then io_return ()
       else
         io_bind (promise_all
           [rmtree (getFinalInstallPath config build []),
            rmtree (getInstallPath config build []),
            rmtree (getBuildPath config build [])]) (\<lambda>u.
         io_bind (promise_all
           (map (\<lambda>p. fs_mkdirp (getBuildPath config build [p])) BUILD_DIRS
            @ map (\<lambda>p. fs_mkdirp (getInstallPath config build [p])) INSTALL_DIRS)) (\<lambda>u.
         performBuild_run h build config sandbox)))"


section \<open>The hash script (getOldHash)\<close>

text \<open>
  The script reads its folder from the command line and prints to the standard output;
  the model returns what is printed, or the exception that ends the script. The script
  neither declares nor imports \<open>Exception\<close>, and JavaScript has no such global, so
  evaluating \<open>new Exception(...)\<close> raises a \<open>ReferenceError\<close>.
\<close>

definition readFileSync :: "filesystem \<Rightarrow> string \<Rightarrow> js_error + string" where
  "readFileSync fs p = (case readFile_op p fs of Inl e \<Rightarrow> Inl e | Inr (c, fs') \<Rightarrow> Inr c)"

definition getOldHash :: "string list \<Rightarrow> filesystem \<Rightarrow> js_error + string" where
  "getOldHash args fs =
     (case args of
        [] \<Rightarrow> Inl (TypeError ''Path must be a string. Received undefined'')
      | folderName # rest \<Rightarrow>
          let fileName = path_join [folderName, ''.esy_hash'']
          in if existsSync fs fileName then Inl (ReferenceError ''Exception is not defined'')
             else case readFileSync fs fileName of
                    Inl e \<Rightarrow> Inl e
                  | Inr fileContent \<Rightarrow> Inr (fileContent @ [CHR 0x0A]))"

section \<open>Notions used to state the properties\<close>

text \<open>The base directory of a build's three store trees, in the words of the path scheme.\<close>

definition store_base :: "string \<Rightarrow> string \<Rightarrow> Build \<Rightarrow> string" where
  "store_base storePath' sandboxPath' b =
     (if shouldBePersisted b then storePath' else path_join [sandboxPath', ''_esy'', ''store''])"

text \<open>
  The builds reachable from a build: itself and, recursively, its dependencies.
  \<open>unique_ids\<close>: among them an id stands for one build (builds are deduplicated by id).
\<close>

function subbuilds :: "Build \<Rightarrow> Build list" where
  "subbuilds b = b # concat (map subbuilds (dependencies b))"
  by pat_completeness auto
termination
  by (relation "measure size") (auto simp: deps_size)

declare subbuilds.simps [simp del]

definition unique_ids :: "Build \<Rightarrow> bool" where
  "unique_ids b = (\<forall>x\<in>set (subbuilds b). \<forall>y\<in>set (subbuilds b). id_of x = id_of y \<longrightarrow> x = y)"

text \<open>
  The visits of the two traversals as lists: \<open>bfs_list\<close> follows \<open>traverse_loop\<close> and
  \<open>dfs_list\<close> follows \<open>traverseDeepFirst_traverse\<close>, each returning the builds the visitor
  is called on. \<open>deps_first D xs\<close>: every build of \<open>xs\<close> comes after builds with the ids of
  all its dependencies, given that the ids \<open>D\<close> came before \<open>xs\<close>. \<open>dfs_post\<close> is what a
  depth-first visit of the builds \<open>S\<close> achieves when it starts with the ids \<open>seen\<close>, of
  which the ids \<open>D\<close> are visited already, and returns \<open>seen'\<close> and the visits \<open>new\<close>.
\<close>

function bfs_list :: "string set \<Rightarrow> Build list \<Rightarrow> Build list" where
  "bfs_list seen [] = []"
| "bfs_list seen (cur # queue) =
     (if id_of cur \<in> seen then bfs_list seen queue
      else cur # bfs_list (insert (id_of cur) seen) (queue @ dependencies cur))"
  by pat_completeness auto
termination
  by (relation "measure (\<lambda>(seen, queue). sum_list (map size queue))")
     (auto simp: deps_sum_size build_size_pos)

function dfs_list :: "Build \<Rightarrow> string set \<Rightarrow> string set \<times> Build list"
  and dfs_lists :: "Build list \<Rightarrow> string set \<Rightarrow> string set \<times> Build list" where
  "dfs_list b seen =
     (if id_of b \<in> seen then (seen, [])
      else case dfs_lists (dependencies b) (insert (id_of b) seen) of
             (seen', new) \<Rightarrow> (seen', new @ [b]))"
| "dfs_lists [] seen = (seen, [])"
| "dfs_lists (d # ds) seen =
     (case dfs_list d seen of (s1, n1) \<Rightarrow>
        case dfs_lists ds s1 of (s2, n2) \<Rightarrow> (s2, n1 @ n2))"
  by pat_completeness auto
termination
  by (relation "measure (\<lambda>a. case a of
         Inl (b, seen) \<Rightarrow> 2 * size b
       | Inr (ds, seen) \<Rightarrow> 2 * sum_list (map size ds) + 1)")
     (auto simp: build_size_pos deps_sum_size2)

declare dfs_list.simps [simp del]

fun deps_first :: "string set \<Rightarrow> Build list \<Rightarrow> bool" where
  "deps_first D [] = True"
| "deps_first D (x # xs) =
     ((\<forall>d\<in>set (dependencies x). id_of d \<in> D) \<and> deps_first (insert (id_of x) D) xs)"

definition dfs_post ::
  "Build \<Rightarrow> Build set \<Rightarrow> string set \<Rightarrow> string set \<Rightarrow> string set \<Rightarrow> Build list \<Rightarrow> bool" where
  "dfs_post r S D seen seen' new \<longleftrightarrow>
     seen' = seen \<union> id_of ` set new \<and> id_of ` set new \<inter> seen = {} \<and>
     distinct (map id_of new) \<and> set new \<subseteq> S \<and>
     D \<union> id_of ` set new = D \<union> id_of ` S \<and>
     (\<forall>x\<in>set (subbuilds r). id_of x \<in> D \<union> id_of ` set new \<longrightarrow>
        id_of ` set (subbuilds x) \<subseteq> D \<union> id_of ` set new) \<and>
     deps_first D new"






text \<open>The lines of a rendered environment, one variable after the other.\<close>

fun exported_lines :: "EnvironmentVar list \<Rightarrow> string list" where
  "exported_lines [] = []"
| \<open>exported_lines (e # es) =
     (case var_value e of
        None \<Rightarrow> exported_lines es
      | Some v \<Rightarrow> (''export '' @ var_name e @ ''="'' @ v @ ''";'') # exported_lines es)\<close>

text \<open>
  The alphabet of package names \<open>[a-z0-9@/._-]\<close>, its part \<open>[a-z0-9/.]\<close>, and the code word
  of a character of that part.
\<close>

definition name_char :: "char \<Rightarrow> bool" where
  "name_char c =
     (let n = of_char c :: nat
      in (97 \<le> n \<and> n \<le> 122) \<or> (48 \<le> n \<and> n \<le> 57) \<or> c \<in> set ''@/._-'')"

definition plain_char :: "char \<Rightarrow> bool" where
  "plain_char c =
     (let n = of_char c :: nat
      in (97 \<le> n \<and> n \<le> 122) \<or> (48 \<le> n \<and> n \<le> 57) \<or> c = CHR ''/'' \<or> c = CHR ''.'')"

definition encode_char :: "char \<Rightarrow> string" where
  "encode_char c =
     (if c = CHR ''/'' then ''__slash__'' else if c = CHR ''.'' then ''__dot__'' else [c])"

text \<open>
  The tokens of a name: a maximal run of underscores, or one character that is not an
  underscore. \<open>encode_token\<close> is the code word of a token: a run of underscores grows by
  two underscores, \<open>/\<close> becomes \<open>__slash__\<close>, \<open>.\<close> becomes \<open>__dot__\<close>, \<open>-\<close> becomes \<open>_\<close>, and
  any other character stays.
\<close>

function name_tokens :: "string \<Rightarrow> string list" where
  "name_tokens [] = []"
| "name_tokens (c # cs) =
     (if c = CHR ''_''
      then (c # takeWhile (\<lambda>x. x = CHR ''_'') cs)
           # name_tokens (dropWhile (\<lambda>x. x = CHR ''_'') cs)
      else [c] # name_tokens cs)"
  by pat_completeness auto
termination
  by (relation "measure length") (auto simp: length_dropWhile_le less_Suc_eq_le)

definition encode_token :: "string \<Rightarrow> string" where
  "encode_token t =
     (if hd t = CHR ''_'' then t @ ''__''
      else if t = ''/'' then ''__slash__''
      else if t = ''.'' then ''__dot__''
      else if t = ''-'' then ''_''
      else t)"

text \<open>Two small graphs: a diamond R -> {A, B} -> L and a chain A -> B -> C.\<close>

definition diamond :: Build where
  "diamond =
     (let l = Build ''L'' ''l'' ''1.0'' None [] ''node_modules/l'' False True [] [];
          a = Build ''A'' ''a'' ''1.0'' None [] ''node_modules/a'' False True [l] [];
          b = Build ''B'' ''b'' ''1.0'' None [] ''node_modules/b'' False True [l] []
      in Build ''R'' ''r'' ''1.0'' None [] '''' False False [a, b] [])"





text \<open>
  What an asynchronous function adds to the events: \<open>emits P m\<close> says that \<open>m\<close> only
  appends events and that they all satisfy \<open>P\<close>; \<open>preserves m\<close> that \<open>m\<close> leaves every
  existing entry of the file system as it is. \<open>quiet\<close> events only create directories
  that are missing or ask whether a path exists.
\<close>

definition emits :: "(event \<Rightarrow> bool) \<Rightarrow> 'a io \<Rightarrow> bool" where
  "emits P m = (\<forall>w. \<exists>new. events (snd (m w)) = events w @ new \<and> list_all P new)"








text \<open>
  A persisted build \<open>pkg\<close> with one command and a development build \<open>dev\<close> without a
  command that mutates its source path; a store and a sandbox; a host whose commands
  install one file that names its own staging directory.
\<close>

definition pkg :: Build where
  "pkg = Build ''abc'' ''pkg'' ''1.0'' (Some [''make install'']) [] ''node_modules/pkg'' False True [] []"

definition dev :: Build where
  "dev = Build ''dev'' ''dev'' ''0.0'' None [] ''src'' True False [] []"

definition cfg0 :: BuildConfig where
  "cfg0 = createConfig ''/store'' ''/sandbox''"

definition host0 :: host where
  "host0 = \<lparr> calculateEnvironment = (\<lambda>c b e. Inr []),
             child_exec = (\<lambda>c cwd fs.
               case writeFile_op ''/store/_insttmp/abc/lib/META'' ''prefix=/store/_insttmp/abc'' fs of
                 Inl e \<Rightarrow> Inl e | Inr (u, fs') \<Rightarrow> Inr fs'),
             child_spawn = (\<lambda>c args fs. Inr fs) \<rparr>"

definition world0 :: world where
  "world0 =
     \<lparr> files = [(''/store'', Dir), (''/store/_build'', Dir), (''/store/_install'', Dir),
                (''/store/_insttmp'', Dir), (''/sandbox'', Dir), (''/sandbox/_esy'', Dir),
                (''/sandbox/_esy/store'', Dir), (''/sandbox/_esy/store/_build'', Dir),
                (''/sandbox/_esy/store/_install'', Dir), (''/sandbox/_esy/store/_insttmp'', Dir)],
       events = [] \<rparr>"





definition sandbox_pkg :: BuildSandbox where
  "sandbox_pkg = \<lparr>env = [], root = pkg\<rparr>"

definition staged :: world where
  "staged =
     \<lparr> files = [(''/store'', Dir), (''/store/_insttmp'', Dir), (''/store/_insttmp/abc'', Dir),
                (''/store/_insttmp/abc/lib'', Dir),
                (''/store/_insttmp/abc/lib/pkg.pc'',
                 File (''prefix=/store/_insttmp/abc'' @ [CHR 0x0A] @ ''libdir=/store/_insttmp/abc/lib'') 420)],
       events = [] \<rparr>"

definition hash_world :: filesystem where
  "hash_world = [(''/home/u/pkg'', Dir), (''/home/u/pkg/.esy_hash'', File ''0a1b2c'' 420)]"





section \<open>Properties of the path scheme\<close>

text \<open>
  C6. For a config created from a store path and a sandbox path: the source path of a build
  is sandboxPath/sourcePath/segments; the root path is the build path when the build mutates
  its source path and the source path otherwise; the build, install and final install paths
  are base/_build/id/segments, base/_insttmp/id/segments and base/_install/id/segments, where
  base is the store path for a persisted build and sandboxPath/_esy/store otherwise.
\<close>

theorem createConfig_paths:
  fixes sp sb :: string and b :: Build and s :: "string list"
  defines "cfg \<equiv> createConfig sp sb"
  shows "getSourcePath cfg b s = path_join ([sb, sourcePath b] @ s)
       \<and> getRootPath cfg b s = (if mutatesSourcePath b then getBuildPath cfg b s else getSourcePath cfg b s)
       \<and> getBuildPath cfg b s = path_join ([store_base sp sb b, ''_build'', id_of b] @ s)
       \<and> getInstallPath cfg b s = path_join ([store_base sp sb b, ''_insttmp'', id_of b] @ s)
       \<and> getFinalInstallPath cfg b s = path_join ([store_base sp sb b, ''_install'', id_of b] @ s)
       \<and> storePath cfg = sp \<and> sandboxPath cfg = sb"
  by (simp add: cfg_def createConfig_def genPath_def store_base_def Let_def)

theorem createConfig_paths_witness:
  "getSourcePath cfg0 pkg [] = ''/sandbox/node_modules/pkg''
   \<and> getRootPath cfg0 pkg [] = ''/sandbox/node_modules/pkg''
   \<and> getInstallPath cfg0 pkg [''lib''] = ''/store/_insttmp/abc/lib''
   \<and> getFinalInstallPath cfg0 pkg [''lib''] = ''/store/_install/abc/lib''
   \<and> getRootPath cfg0 dev [] = ''/sandbox/_esy/store/_build/dev''
   \<and> getBuildPath cfg0 dev [''_esy''] = ''/sandbox/_esy/store/_build/dev/_esy''"
proof -
  have p: "path_join [''/sandbox'', sourcePath pkg] = ''/sandbox/node_modules/pkg''
      \<and> path_join [store_base ''/store'' ''/sandbox'' pkg, ''_insttmp'', id_of pkg, ''lib''] = ''/store/_insttmp/abc/lib''
      \<and> path_join [store_base ''/store'' ''/sandbox'' pkg, ''_install'', id_of pkg, ''lib''] = ''/store/_install/abc/lib''
      \<and> path_join [store_base ''/store'' ''/sandbox'' dev, ''_build'', id_of dev] = ''/sandbox/_esy/store/_build/dev''
      \<and> path_join [store_base ''/store'' ''/sandbox'' dev, ''_build'', id_of dev, ''_esy''] = ''/sandbox/_esy/store/_build/dev/_esy''
      \<and> \<not> mutatesSourcePath pkg \<and> mutatesSourcePath dev"
    by code_simp
  show ?thesis
    using createConfig_paths [of "''/store''" "''/sandbox''" pkg "[]"]
      createConfig_paths [of "''/store''" "''/sandbox''" pkg "[''lib'']"]
      createConfig_paths [of "''/store''" "''/sandbox''" dev "[]"]
      createConfig_paths [of "''/store''" "''/sandbox''" dev "[''_esy'']"] p
    by (simp add: cfg0_def)
qed

section \<open>Properties of the traversals\<close>

lemma self_in_subbuilds: "b \<in> set (subbuilds b)"
  by (subst subbuilds.simps) simp

lemma deps_in_subbuilds: "d \<in> set (dependencies b) \<Longrightarrow> d \<in> set (subbuilds b)"
  by (subst subbuilds.simps) (auto intro: self_in_subbuilds)

lemma subbuilds_cases:
  "x \<in> set (subbuilds b) \<longleftrightarrow> x = b \<or> (\<exists>d\<in>set (dependencies b). x \<in> set (subbuilds d))"
  by (subst subbuilds.simps) auto

lemma subbuilds_trans:
  "c \<in> set (subbuilds b) \<Longrightarrow> x \<in> set (subbuilds c) \<Longrightarrow> x \<in> set (subbuilds b)"
proof (induction b rule: subbuilds.induct)
  case (1 b)
  from "1.prems"(1) consider "c = b" | d where "d \<in> set (dependencies b)" "c \<in> set (subbuilds d)"
    using subbuilds_cases [of c b] by blast
  then show ?case
  proof cases
    case 1
    with "1.prems"(2) show ?thesis by simp
  next
    case 2
    with "1.IH" "1.prems"(2) have "x \<in> set (subbuilds d)" by blast
    with 2 show ?thesis using subbuilds_cases [of x b] by blast
  qed
qed

lemma subbuilds_size: "x \<in> set (subbuilds b) \<Longrightarrow> size x \<le> size b"
proof (induction b rule: subbuilds.induct)
  case (1 b)
  from "1.prems" consider "x = b" | d where "d \<in> set (dependencies b)" "x \<in> set (subbuilds d)"
    using subbuilds_cases [of x b] by blast
  then show ?case
  proof cases
    case 1
    then show ?thesis by simp
  next
    case 2
    with "1.IH" have "size x \<le> size d" by blast
    with 2 deps_size [of d b] show ?thesis by simp
  qed
qed

lemma closed_covers:
  assumes closed: "\<forall>x\<in>set (subbuilds b). id_of x \<in> F \<longrightarrow> (\<forall>d\<in>set (dependencies x). id_of d \<in> F)"
  shows "c \<in> set (subbuilds b) \<Longrightarrow> id_of c \<in> F \<Longrightarrow> id_of ` set (subbuilds c) \<subseteq> F"
proof (induction c rule: subbuilds.induct)
  case (1 c)
  show ?case
  proof
    fix i assume "i \<in> id_of ` set (subbuilds c)"
    then obtain x where x: "x \<in> set (subbuilds c)" "i = id_of x" by blast
    from x(1) consider "x = c" | d where "d \<in> set (dependencies c)" "x \<in> set (subbuilds d)"
      using subbuilds_cases [of x c] by blast
    then show "i \<in> F"
    proof cases
      case 1
      with x "1.prems" show ?thesis by simp
    next
      case 2
      have "d \<in> set (subbuilds b)"
        using subbuilds_trans [OF "1.prems"(1) deps_in_subbuilds [OF 2(1)]] .
      moreover have "id_of d \<in> F" using closed "1.prems" 2(1) by blast
      ultimately have "id_of ` set (subbuilds d) \<subseteq> F" using "1.IH" 2(1) by blast
      with 2(2) x(2) show ?thesis by blast
    qed
  qed
qed

lemma traverse_loop_fold: "traverse_loop f seen queue st = fold f (bfs_list seen queue) st"
  by (induction f seen queue st rule: traverse_loop.induct) auto

lemma bfs_list_fresh: "id_of ` set (bfs_list seen q) \<inter> seen = {}"
  by (induction seen q rule: bfs_list.induct) auto

lemma bfs_list_distinct: "distinct (map id_of (bfs_list seen q))"
proof (induction seen q rule: bfs_list.induct)
  case (1 seen)
  then show ?case by simp
next
  case (2 seen cur queue)
  show ?case
  proof (cases "id_of cur \<in> seen")
    case True
    with 2 show ?thesis by simp
  next
    case False
    have "id_of cur \<notin> id_of ` set (bfs_list (insert (id_of cur) seen) (queue @ dependencies cur))"
      using bfs_list_fresh [of "insert (id_of cur) seen" "queue @ dependencies cur"] by blast
    with False 2 show ?thesis by simp
  qed
qed

lemma bfs_list_subset: "set (bfs_list seen q) \<subseteq> (\<Union>c\<in>set q. set (subbuilds c))"
proof (induction seen q rule: bfs_list.induct)
  case (1 seen)
  then show ?case by simp
next
  case (2 seen cur queue)
  show ?case
  proof (cases "id_of cur \<in> seen")
    case True
    with 2 show ?thesis by auto
  next
    case False
    have "(\<Union>c\<in>set (queue @ dependencies cur). set (subbuilds c)) \<subseteq> (\<Union>c\<in>set (cur # queue). set (subbuilds c))"
      using subbuilds_cases [of _ cur] by auto
    with False 2 show ?thesis using self_in_subbuilds [of cur] by auto
  qed
qed

lemma bfs_list_queue: "id_of ` set q \<subseteq> seen \<union> id_of ` set (bfs_list seen q)"
  by (induction seen q rule: bfs_list.induct) auto

lemma bfs_list_closed:
  assumes U: "\<forall>x\<in>U. set (dependencies x) \<subseteq> U"
    and cons: "\<forall>x\<in>U. \<forall>y\<in>U. id_of x = id_of y \<longrightarrow> x = y"
  shows "set q \<subseteq> U \<Longrightarrow>
    \<forall>x\<in>U. id_of x \<in> seen \<longrightarrow> (\<forall>d\<in>set (dependencies x). id_of d \<in> seen \<union> id_of ` set q) \<Longrightarrow>
    \<forall>x\<in>U. id_of x \<in> seen \<union> id_of ` set (bfs_list seen q) \<longrightarrow>
      (\<forall>d\<in>set (dependencies x). id_of d \<in> seen \<union> id_of ` set (bfs_list seen q))"
proof (induction seen q rule: bfs_list.induct)
  case (1 seen)
  then show ?case by simp
next
  case (2 seen cur queue)
  show ?case
  proof (cases "id_of cur \<in> seen")
    case True
    have "\<forall>x\<in>U. id_of x \<in> seen \<longrightarrow> (\<forall>d\<in>set (dependencies x). id_of d \<in> seen \<union> id_of ` set queue)"
    proof (intro ballI impI)
      fix x d assume "x \<in> U" "id_of x \<in> seen" "d \<in> set (dependencies x)"
      with "2.prems"(2) have "id_of d \<in> seen \<union> id_of ` set (cur # queue)" by blast
      with True show "id_of d \<in> seen \<union> id_of ` set queue" by auto
    qed
    with "2.IH"(1) [OF True] "2.prems"(1) True show ?thesis by simp
  next
    case False
    let ?seen = "insert (id_of cur) seen" and ?q = "queue @ dependencies cur"
    have cur: "cur \<in> U" using "2.prems"(1) by simp
    have q: "set ?q \<subseteq> U" using "2.prems"(1) U cur by auto
    have "\<forall>x\<in>U. id_of x \<in> ?seen \<longrightarrow> (\<forall>d\<in>set (dependencies x). id_of d \<in> ?seen \<union> id_of ` set ?q)"
    proof (intro ballI impI)
      fix x d assume x: "x \<in> U" "id_of x \<in> ?seen" and d: "d \<in> set (dependencies x)"
      show "id_of d \<in> ?seen \<union> id_of ` set ?q"
      proof (cases "id_of x = id_of cur")
        case True
        with cons x(1) cur have "x = cur" by blast
        with d show ?thesis by simp
      next
        case False
        with x(2) have "id_of x \<in> seen" by simp
        with "2.prems"(2) x(1) d have "id_of d \<in> seen \<union> id_of ` set (cur # queue)" by blast
        then show ?thesis by auto
      qed
    qed
    from "2.IH"(2) [OF False q this] False show ?thesis by simp
  qed
qed

lemma fold_traverseDeepFirst:
  assumes "\<And>d seen st. d \<in> set ds \<Longrightarrow>
      traverseDeepFirst_traverse f d (seen, st) = (fst (dfs_list d seen), fold f (snd (dfs_list d seen)) st)"
  shows "fold (traverseDeepFirst_traverse f) ds (seen, st)
       = (fst (dfs_lists ds seen), fold f (snd (dfs_lists ds seen)) st)"
  using assms by (induction ds arbitrary: seen st) (auto split: prod.splits)

lemma traverseDeepFirst_traverse_fold:
  "traverseDeepFirst_traverse f b s = (fst (dfs_list b (fst s)), fold f (snd (dfs_list b (fst s))) (snd s))"
proof (induction f b s rule: traverseDeepFirst_traverse.induct)
  case (1 f build seen st)
  show ?case
  proof (cases "id_of build \<in> seen")
    case True
    then show ?thesis by (simp add: dfs_list.simps traverseDeepFirst_traverse.simps)
  next
    case False
    have "fold (traverseDeepFirst_traverse f) (dependencies build) (insert (id_of build) seen, st)
        = (fst (dfs_lists (dependencies build) (insert (id_of build) seen)),
           fold f (snd (dfs_lists (dependencies build) (insert (id_of build) seen))) st)"
      by (rule fold_traverseDeepFirst) (use 1 False in auto)
    with False show ?thesis
      by (simp add: dfs_list.simps traverseDeepFirst_traverse.simps split: prod.splits)
  qed
qed

lemma deps_first_append:
  "deps_first D (xs @ ys) = (deps_first D xs \<and> deps_first (D \<union> id_of ` set xs) ys)"
  by (induction xs arbitrary: D) auto

lemma deps_first_nth:
  "deps_first D xs \<Longrightarrow> i < length xs \<Longrightarrow> d \<in> set (dependencies (xs ! i)) \<Longrightarrow>
     id_of d \<in> D \<union> id_of ` set (take i xs)"
proof (induction xs arbitrary: D i)
  case Nil
  then show ?case by simp
next
  case (Cons x xs)
  show ?case
  proof (cases i)
    case 0
    with Cons.prems show ?thesis by simp
  next
    case (Suc j)
    with Cons.prems Cons.IH [of "insert (id_of x) D" j] show ?thesis by auto
  qed
qed

lemma dfs_postD:
  assumes "dfs_post r S D seen seen' new"
  shows "seen' = seen \<union> id_of ` set new"
    and "id_of ` set new \<inter> seen = {}"
    and "distinct (map id_of new)"
    and "set new \<subseteq> S"
    and "D \<union> id_of ` set new = D \<union> id_of ` S"
    and "\<forall>x\<in>set (subbuilds r). id_of x \<in> D \<union> id_of ` set new \<longrightarrow>
        id_of ` set (subbuilds x) \<subseteq> D \<union> id_of ` set new"
    and "deps_first D new"
  using assms unfolding dfs_post_def by blast+

lemma dfs_invariant:
  assumes cons: "unique_ids r"
  shows "b \<in> set (subbuilds r) \<Longrightarrow> D \<subseteq> seen \<Longrightarrow>
      (\<forall>x\<in>set (subbuilds r). id_of x \<in> D \<longrightarrow> id_of ` set (subbuilds x) \<subseteq> D) \<Longrightarrow>
      (\<forall>x\<in>set (subbuilds b). id_of x \<in> seen \<longrightarrow> id_of x \<in> D) \<Longrightarrow>
      dfs_post r (set (subbuilds b)) D seen (fst (dfs_list b seen)) (snd (dfs_list b seen))"
    and "set ds \<subseteq> set (subbuilds r) \<Longrightarrow> D \<subseteq> seen \<Longrightarrow>
      (\<forall>x\<in>set (subbuilds r). id_of x \<in> D \<longrightarrow> id_of ` set (subbuilds x) \<subseteq> D) \<Longrightarrow>
      (\<forall>d\<in>set ds. \<forall>x\<in>set (subbuilds d). id_of x \<in> seen \<longrightarrow> id_of x \<in> D) \<Longrightarrow>
      dfs_post r (\<Union>d\<in>set ds. set (subbuilds d)) D seen (fst (dfs_lists ds seen)) (snd (dfs_lists ds seen))"
proof (induction b seen and ds seen arbitrary: D and D rule: dfs_list_dfs_lists.induct)
  case (1 b seen)
  show ?case
  proof (cases "id_of b \<in> seen")
    case True
    with "1.prems"(4) self_in_subbuilds [of b] have "id_of b \<in> D" by blast
    with "1.prems"(1,3) have "id_of ` set (subbuilds b) \<subseteq> D" by blast
    with True "1.prems"(3) show ?thesis
      by (auto simp: dfs_list.simps dfs_post_def)
  next
    case False
    let ?seen = "insert (id_of b) seen"
    let ?S = "\<Union>d\<in>set (dependencies b). set (subbuilds d)"
    obtain s n where res: "dfs_lists (dependencies b) ?seen = (s, n)" by force
    have deps: "set (dependencies b) \<subseteq> set (subbuilds r)"
      using "1.prems"(1) deps_in_subbuilds subbuilds_trans by blast
    have fresh: "\<forall>d\<in>set (dependencies b). \<forall>x\<in>set (subbuilds d). id_of x \<in> ?seen \<longrightarrow> id_of x \<in> D"
    proof (intro ballI impI)
      fix d x assume d: "d \<in> set (dependencies b)" and x: "x \<in> set (subbuilds d)" "id_of x \<in> ?seen"
      have xb: "x \<in> set (subbuilds b)" using d x(1) subbuilds_cases [of x b] by blast
      have "size x < size b" using subbuilds_size [OF x(1)] deps_size [OF d] by simp
      then have "x \<noteq> b" by auto
      moreover have "x \<in> set (subbuilds r)" using subbuilds_trans [OF "1.prems"(1) xb] .
      ultimately have "id_of x \<noteq> id_of b" using cons "1.prems"(1) unfolding unique_ids_def by blast
      with x(2) have "id_of x \<in> seen" by simp
      with "1.prems"(4) xb show "id_of x \<in> D" by blast
    qed
    have "D \<subseteq> ?seen" using "1.prems"(2) by auto
    from "1.IH" [OF False deps this "1.prems"(3) fresh] res
    have post: "dfs_post r ?S D ?seen s n" by simp
    note p = dfs_postD [OF post]
    have S: "set (subbuilds b) = insert b ?S" using subbuilds_cases [of _ b] by auto
    have closed: "\<forall>x\<in>set (subbuilds r). id_of x \<in> D \<union> id_of ` set (n @ [b]) \<longrightarrow>
        id_of ` set (subbuilds x) \<subseteq> D \<union> id_of ` set (n @ [b])"
    proof (intro ballI impI)
      fix x assume x: "x \<in> set (subbuilds r)" "id_of x \<in> D \<union> id_of ` set (n @ [b])"
      show "id_of ` set (subbuilds x) \<subseteq> D \<union> id_of ` set (n @ [b])"
      proof (cases "id_of x = id_of b")
        case True
        with cons x(1) "1.prems"(1) have "x = b" unfolding unique_ids_def by blast
        with S p(5) show ?thesis by auto
      next
        case False
        with x(2) have "id_of x \<in> D \<union> id_of ` set n" by auto
        with p(6) x(1) have "id_of ` set (subbuilds x) \<subseteq> D \<union> id_of ` set n"
          by blast
        then show ?thesis by auto
      qed
    qed
    have depsD: "\<forall>d\<in>set (dependencies b). id_of d \<in> D \<union> id_of ` set n"
    proof
      fix d assume "d \<in> set (dependencies b)"
      then have "id_of d \<in> D \<union> id_of ` ?S" using self_in_subbuilds [of d] by blast
      with p(5) show "id_of d \<in> D \<union> id_of ` set n" by simp
    qed
    have "dfs_post r (set (subbuilds b)) D seen s (n @ [b])"
      unfolding dfs_post_def
    proof (intro conjI)
      show "s = seen \<union> id_of ` set (n @ [b])" using p(1) by auto
      show "id_of ` set (n @ [b]) \<inter> seen = {}" using p(2) False by auto
      show "distinct (map id_of (n @ [b]))" using p(2,3) by auto
      show "set (n @ [b]) \<subseteq> set (subbuilds b)" using p(4) S by auto
      show "D \<union> id_of ` set (n @ [b]) = D \<union> id_of ` set (subbuilds b)"
        using p(5) S by auto
      show "\<forall>x\<in>set (subbuilds r). id_of x \<in> D \<union> id_of ` set (n @ [b]) \<longrightarrow>
        id_of ` set (subbuilds x) \<subseteq> D \<union> id_of ` set (n @ [b])" by (rule closed)
      show "deps_first D (n @ [b])"
        using p(7) depsD by (simp add: deps_first_append)
    qed
    with False res show ?thesis by (simp add: dfs_list.simps)
  qed
next
  case (2 seen)
  then show ?case by (simp add: dfs_post_def)
next
  case (3 d ds seen)
  obtain s1 n1 where r1: "dfs_list d seen = (s1, n1)" by force
  obtain s2 n2 where r2: "dfs_lists ds s1 = (s2, n2)" by force
  let ?S1 = "set (subbuilds d)" and ?S2 = "\<Union>d\<in>set ds. set (subbuilds d)"
  have p1: "dfs_post r ?S1 D seen s1 n1"
    using "3.IH"(1) [of D] "3.prems" r1 by simp
  note a = dfs_postD [OF p1]
  let ?D = "D \<union> id_of ` set n1"
  have "?D \<subseteq> s1" using a(1) "3.prems"(2) by auto
  moreover note a(6)
  moreover have "\<forall>d\<in>set ds. \<forall>x\<in>set (subbuilds d). id_of x \<in> s1 \<longrightarrow> id_of x \<in> ?D"
    using a(1) "3.prems"(4) by auto
  moreover have "set ds \<subseteq> set (subbuilds r)" using "3.prems"(1) by simp
  ultimately have p2: "dfs_post r ?S2 ?D s1 s2 n2"
    using "3.IH"(2) [OF r1 [symmetric], of ?D] r1 r2 by simp
  note b = dfs_postD [OF p2]
  have eq: "D \<union> id_of ` set (n1 @ n2) = ?D \<union> id_of ` set n2" by auto
  have "dfs_post r (\<Union>d\<in>set (d # ds). set (subbuilds d)) D seen s2 (n1 @ n2)"
    unfolding dfs_post_def
  proof (intro conjI)
    show "s2 = seen \<union> id_of ` set (n1 @ n2)" using a(1) b(1) by auto
    show "id_of ` set (n1 @ n2) \<inter> seen = {}" using a(1,2) b(2) by auto
    show "distinct (map id_of (n1 @ n2))" using a(1,3) b(2,3) by auto
    show "set (n1 @ n2) \<subseteq> (\<Union>d\<in>set (d # ds). set (subbuilds d))"
      using a(4) b(4) by auto
    show "D \<union> id_of ` set (n1 @ n2) = D \<union> id_of ` (\<Union>d\<in>set (d # ds). set (subbuilds d))"
    proof -
      have "D \<union> id_of ` set (n1 @ n2) = ?D \<union> id_of ` ?S2" using eq b(5) by simp
      also have "\<dots> = (D \<union> id_of ` ?S1) \<union> id_of ` ?S2" using a(5) by simp
      finally show ?thesis by (simp add: image_Un Un_assoc)
    qed
    show "\<forall>x\<in>set (subbuilds r). id_of x \<in> D \<union> id_of ` set (n1 @ n2) \<longrightarrow>
        id_of ` set (subbuilds x) \<subseteq> D \<union> id_of ` set (n1 @ n2)"
      unfolding eq by (rule b(6))
    show "deps_first D (n1 @ n2)" using a(7) b(7) by (simp add: deps_first_append)
  qed
  with r1 r2 show ?case by simp
qed

lemma fold_snoc: "fold (\<lambda>c acc. acc @ [c]) xs acc = acc @ xs"
  by (induction xs arbitrary: acc) auto

lemma traverse_order_bfs: "traverse_order b = bfs_list {} [b]"
  by (simp add: traverse_order_def traverse_def traverse_loop_fold fold_snoc)

lemma traverseDeepFirst_order_dfs: "traverseDeepFirst_order b = snd (dfs_list b {})"
  by (simp add: traverseDeepFirst_order_def traverseDeepFirst_def traverseDeepFirst_traverse_fold fold_snoc)

lemma traverse_fold: "traverse b f st = fold f (traverse_order b) st"
  by (simp add: traverse_order_bfs traverse_def traverse_loop_fold)

lemma traverseDeepFirst_fold: "traverseDeepFirst b f st = fold f (traverseDeepFirst_order b) st"
  by (simp add: traverseDeepFirst_order_dfs traverseDeepFirst_def traverseDeepFirst_traverse_fold)

lemma fold_skip_root:
  "fold (\<lambda>cur ds. if cur \<noteq> b then ds @ [cur] else ds) xs acc = acc @ filter (\<lambda>c. c \<noteq> b) xs"
  by (induction xs arbitrary: acc) auto

lemma traverse_order_Cons: "traverse_order b = b # bfs_list {id_of b} (dependencies b)"
  by (simp add: traverse_order_bfs)

lemma collect_tl: "collectTransitiveDependencies b = tl (traverse_order b)"
proof -
  have "\<forall>c\<in>set (bfs_list {id_of b} (dependencies b)). c \<noteq> b"
    using bfs_list_fresh [of "{id_of b}" "dependencies b"] by auto
  then have "filter (\<lambda>c. c \<noteq> b) (bfs_list {id_of b} (dependencies b)) = bfs_list {id_of b} (dependencies b)"
    by (simp add: filter_id_conv)
  then show ?thesis
    by (simp add: collectTransitiveDependencies_def traverse_fold fold_skip_root traverse_order_Cons)
qed

lemma traverse_order_distinct: "distinct (map id_of (traverse_order b))"
  by (simp only: traverse_order_bfs bfs_list_distinct)

lemma traverse_order_subset: "set (traverse_order b) \<subseteq> set (subbuilds b)"
  using bfs_list_subset [of "{}" "[b]"] by (simp add: traverse_order_bfs)

lemma traverse_order_ids:
  assumes "unique_ids b"
  shows "id_of ` set (subbuilds b) \<subseteq> id_of ` set (traverse_order b)"
proof -
  let ?F = "id_of ` set (bfs_list {} [b])"
  have U: "\<forall>x\<in>set (subbuilds b). set (dependencies x) \<subseteq> set (subbuilds b)"
    using deps_in_subbuilds subbuilds_trans by blast
  have cons: "\<forall>x\<in>set (subbuilds b). \<forall>y\<in>set (subbuilds b). id_of x = id_of y \<longrightarrow> x = y"
    using assms by (simp add: unique_ids_def)
  have "\<forall>x\<in>set (subbuilds b). id_of x \<in> {} \<union> ?F \<longrightarrow> (\<forall>d\<in>set (dependencies x). id_of d \<in> {} \<union> ?F)"
    by (rule bfs_list_closed [OF U cons]) (simp_all add: self_in_subbuilds)
  then have closed: "\<forall>x\<in>set (subbuilds b). id_of x \<in> ?F \<longrightarrow> (\<forall>d\<in>set (dependencies x). id_of d \<in> ?F)"
    by simp
  have "id_of b \<in> ?F" by simp
  from closed_covers [OF closed self_in_subbuilds this] show ?thesis
    by (simp add: traverse_order_bfs)
qed

lemma same_ids_same_set:
  assumes "unique_ids b" "set xs \<subseteq> set (subbuilds b)" "id_of ` set (subbuilds b) \<subseteq> id_of ` set xs"
  shows "set xs = set (subbuilds b)"
proof
  show "set xs \<subseteq> set (subbuilds b)" by fact
  show "set (subbuilds b) \<subseteq> set xs"
  proof
    fix x assume x: "x \<in> set (subbuilds b)"
    with assms(3) obtain y where y: "y \<in> set xs" "id_of y = id_of x" by force
    with assms(1,2) x have "y = x" unfolding unique_ids_def by blast
    with y show "x \<in> set xs" by simp
  qed
qed

lemma dfs_order_post:
  assumes "unique_ids b"
  shows "dfs_post b (set (subbuilds b)) {} {} (fst (dfs_list b {})) (traverseDeepFirst_order b)"
  using dfs_invariant(1) [OF assms self_in_subbuilds, of "{}" "{}"]
  by (simp add: traverseDeepFirst_order_dfs)

lemma deps_before:
  assumes "unique_ids b" "i < length (traverseDeepFirst_order b)"
    "d \<in> set (dependencies (traverseDeepFirst_order b ! i))"
  shows "d \<in> set (take i (traverseDeepFirst_order b))"
proof -
  let ?xs = "traverseDeepFirst_order b"
  note p = dfs_postD [OF dfs_order_post [OF assms(1)]]
  from deps_first_nth [OF p(7) assms(2,3)]
  obtain y where y: "y \<in> set (take i ?xs)" "id_of y = id_of d" by force
  have "y \<in> set (subbuilds b)" using y(1) p(4) by (auto dest: in_set_takeD)
  moreover have "?xs ! i \<in> set (subbuilds b)" using p(4) assms(2) by auto
  then have "d \<in> set (subbuilds b)"
    using assms(3) deps_in_subbuilds subbuilds_trans by blast
  ultimately have "y = d" using assms(1) y(2) unfolding unique_ids_def by blast
  with y(1) show ?thesis by simp
qed

text \<open>
  C7. When an id stands for one build among the builds reachable from \<open>b\<close> (a finite
  graph without cycles, deduplicated by id): each traversal calls its visitor on the
  builds of its visit, in order; both visits hold every reachable build, each id once;
  in the depth-first visit every dependency of a build comes before the build; and the
  breadth-first visit is \<open>b\<close> followed by \<open>collectTransitiveDependencies b\<close>.
\<close>

theorem traversal_coverage:
  assumes "unique_ids b"
  shows "traverse b f st = fold f (traverse_order b) st
       \<and> traverseDeepFirst b g st' = fold g (traverseDeepFirst_order b) st'
       \<and> distinct (map id_of (traverse_order b))
       \<and> set (traverse_order b) = set (subbuilds b)
       \<and> distinct (map id_of (traverseDeepFirst_order b))
       \<and> set (traverseDeepFirst_order b) = set (subbuilds b)
       \<and> (\<forall>i<length (traverseDeepFirst_order b).
            \<forall>d\<in>set (dependencies (traverseDeepFirst_order b ! i)).
              d \<in> set (take i (traverseDeepFirst_order b)))
       \<and> traverse_order b = b # collectTransitiveDependencies b"
proof -
  note p = dfs_postD [OF dfs_order_post [OF assms]]
  have bfs: "set (traverse_order b) = set (subbuilds b)"
    by (rule same_ids_same_set [OF assms traverse_order_subset traverse_order_ids [OF assms]])
  have "id_of ` set (subbuilds b) \<subseteq> id_of ` set (traverseDeepFirst_order b)"
    using p(5) by simp
  then have dfs: "set (traverseDeepFirst_order b) = set (subbuilds b)"
    by (rule same_ids_same_set [OF assms p(4)])
  have cons: "traverse_order b = b # collectTransitiveDependencies b"
    by (simp add: collect_tl traverse_order_Cons)
  have before: "\<forall>i<length (traverseDeepFirst_order b).
      \<forall>d\<in>set (dependencies (traverseDeepFirst_order b ! i)).
        d \<in> set (take i (traverseDeepFirst_order b))"
    using deps_before [OF assms] by blast
  show ?thesis
    by (intro conjI) (rule traverse_fold traverseDeepFirst_fold traverse_order_distinct bfs p(3) dfs before cons)+
qed

theorem traversal_coverage_witness:
  "unique_ids diamond
   \<and> map id_of (traverse_order diamond) = [''R'', ''A'', ''B'', ''L'']
   \<and> map id_of (traverseDeepFirst_order diamond) = [''L'', ''A'', ''B'', ''R'']
   \<and> set (traverse_order diamond) = set (subbuilds diamond)
   \<and> set (traverseDeepFirst_order diamond) = set (subbuilds diamond)
   \<and> map id_of (collectTransitiveDependencies diamond) = [''A'', ''B'', ''L'']"
proof -
  have h: "unique_ids diamond" by code_simp
  have o1: "map id_of (traverse_order diamond) = [''R'', ''A'', ''B'', ''L'']" by code_simp
  have o2: "map id_of (traverseDeepFirst_order diamond) = [''L'', ''A'', ''B'', ''R'']" by code_simp
  have o3: "map id_of (collectTransitiveDependencies diamond) = [''A'', ''B'', ''L'']" by code_simp
  note t = traversal_coverage [OF h, where f = "\<lambda>c n. Suc n" and st = "0::nat"
      and g = "\<lambda>c n. Suc n" and st' = "0::nat"]
  from t have o4: "set (traverse_order diamond) = set (subbuilds diamond)" by (elim conjE)
  from t have o5: "set (traverseDeepFirst_order diamond) = set (subbuilds diamond)" by (elim conjE)
  show ?thesis by (intro conjI) (rule h o1 o2 o3 o4 o5)+
qed

section \<open>Properties of the findlib configuration\<close>









section \<open>Properties of the rendered environment\<close>

lemma exported_lines_filter_map:
  \<open>map (\<lambda>e. ''export '' @ var_name e @ ''="''
                      @ (case var_value e of Some v \<Rightarrow> v | None \<Rightarrow> ''null'') @ ''";'')
              (filter (\<lambda>e. var_value e \<noteq> None) vars) = exported_lines vars\<close>
  by (induction vars) (auto split: option.splits)

text \<open>
  C8. The rendered environment is the lines \<open>export NAME="VALUE";\<close>, joined by newlines, of
  the variables of the groups taken in order whose value is not null: one line for each
  such variable, none for a variable whose value is null.
\<close>

theorem renderEnv_lines:
  "renderEnv groups = array_join [CHR 0x0A] (exported_lines (concat (map envVars groups)))
   \<and> length (exported_lines (concat (map envVars groups)))
       = length (filter (\<lambda>e. var_value e \<noteq> None) (concat (map envVars groups)))"
  unfolding renderEnv_def flattenArray_def Let_def exported_lines_filter_map [symmetric]
  by simp

theorem renderEnv_lines_witness:
  \<open>renderEnv
     [\<lparr>envVars = [\<lparr>var_name = ''A'', var_value = Some ''1''\<rparr>, \<lparr>var_name = ''B'', var_value = None\<rparr>]\<rparr>,
      \<lparr>envVars = [\<lparr>var_name = ''C'', var_value = Some ''x y''\<rparr>]\<rparr>]
   = ''export A="1";'' @ [CHR 0x0A] @ ''export C="x y";''\<close>
  using renderEnv_lines
    [of "[\<lparr>envVars = [\<lparr>var_name = ''A'', var_value = Some ''1''\<rparr>, \<lparr>var_name = ''B'', var_value = None\<rparr>]\<rparr>,
          \<lparr>envVars = [\<lparr>var_name = ''C'', var_value = Some ''x y''\<rparr>]\<rparr>]"]
  by simp

section \<open>Properties of the name normalization\<close>

lemma plain_char_facts:
  assumes "plain_char c"
  shows "toLowerCase_char c = c" "c \<noteq> CHR ''@''" "c \<noteq> CHR ''_''" "c \<noteq> CHR ''-''"
  using assms by (auto simp: plain_char_def toLowerCase_char_def Let_def)

lemma toLowerCase_plain: "list_all plain_char s \<Longrightarrow> toLowerCase s = s"
  by (induction s) (auto simp: toLowerCase_def plain_char_facts)

lemma replace_char_absent: "c \<notin> set s \<Longrightarrow> replace_char c by s = s"
  by (induction s) (auto simp: replace_char_def)

lemma replace_underscores_absent: "CHR ''_'' \<notin> set s \<Longrightarrow> replace_underscores False s = s"
  by (induction s) auto

lemma plain_absent:
  assumes "list_all plain_char s"
  shows "CHR ''@'' \<notin> set s" "CHR ''_'' \<notin> set s" "CHR ''-'' \<notin> set s"
  using assms plain_char_facts(2-4) unfolding list_all_iff by blast+

lemma replace_slash_dot:
  "replace_char CHR ''.'' ''__dot__'' (replace_char CHR ''/'' ''__slash__'' s)
     = concat (map encode_char s)"
  by (induction s) (auto simp: replace_char_def encode_char_def)

lemma encode_no_dash: "CHR ''-'' \<notin> set s \<Longrightarrow> CHR ''-'' \<notin> set (concat (map encode_char s))"
  by (induction s) (auto simp: encode_char_def)

lemma normalize_plain:
  assumes "list_all plain_char s"
  shows "normalizePackageName s = concat (map encode_char s)"
proof -
  note a = plain_absent [OF assms]
  have "replace_char CHR ''-'' ''_'' (concat (map encode_char s)) = concat (map encode_char s)"
    by (rule replace_char_absent [OF encode_no_dash [OF a(3)]])
  then show ?thesis
    by (simp add: normalizePackageName_def toLowerCase_plain [OF assms] replace_char_absent [OF a(1)]
        replace_underscores_absent [OF a(2)] replace_slash_dot)
qed

lemma encode_char_nonempty: "encode_char c \<noteq> []"
  by (simp add: encode_char_def)

lemma encode_head:
  assumes "plain_char a" "plain_char b" "encode_char a @ u = encode_char b @ v"
  shows "a = b"
  using assms plain_char_facts(3) [of a] plain_char_facts(3) [of b]
  by (auto simp: encode_char_def split: if_splits)

lemma encode_inj:
  "list_all plain_char x \<Longrightarrow> list_all plain_char y \<Longrightarrow>
     concat (map encode_char x) = concat (map encode_char y) \<Longrightarrow> x = y"
proof (induction x arbitrary: y)
  case Nil
  then show ?case by (cases y) (auto simp: encode_char_nonempty)
next
  case (Cons a x)
  show ?case
  proof (cases y)
    case Nil
    with Cons.prems show ?thesis by (auto simp: encode_char_nonempty)
  next
    case (Cons b y')
    with Cons.prems have "a = b" using encode_head [of a b] by auto
    with Cons Cons.prems Cons.IH [of y'] show ?thesis by auto
  qed
qed

lemma replace_underscores_run:
  "replace_underscores True (replicate n CHR ''_'') = replicate (n + 2) CHR ''_''"
  by (induction n) (auto simp: numeral_2_eq_2)

lemma normalize_run:
  "normalizePackageName (replicate (Suc n) CHR ''_'') = replicate (Suc n + 2) CHR ''_''"
proof -
  have l: "toLowerCase (replicate (Suc n) CHR ''_'') = replicate (Suc n) CHR ''_''"
    by (simp add: toLowerCase_def toLowerCase_char_def)
  have r: "\<And>c by m. c \<noteq> CHR ''_'' \<Longrightarrow> replace_char c by (replicate m CHR ''_'') = replicate m CHR ''_''"
    by (rule replace_char_absent) auto
  have "replace_underscores False (replicate (Suc n) CHR ''_'') = replicate (Suc n + 2) CHR ''_''"
    using replace_underscores_run [of n] by simp
  then show ?thesis
    unfolding normalizePackageName_def l by (simp add: r del: replicate.simps)
qed

lemma toLowerCase_char_idem: "toLowerCase_char (toLowerCase_char c) = toLowerCase_char c"
  by (simp add: toLowerCase_char_def Let_def)

lemma toLowerCase_char_at: "toLowerCase_char c = CHR ''@'' \<longleftrightarrow> c = CHR ''@''"
proof -
  have "of_char (toLowerCase_char c) = (of_char CHR ''@'' :: nat)
      \<longleftrightarrow> of_char c = (of_char CHR ''@'' :: nat)"
    by (simp add: toLowerCase_char_def Let_def)
  then show ?thesis by (simp only: of_char_eq_iff)
qed

lemma normalize_lower: "normalizePackageName (toLowerCase s) = normalizePackageName s"
proof -
  have "toLowerCase (toLowerCase s) = toLowerCase s"
    by (induction s) (simp_all add: toLowerCase_def toLowerCase_char_idem)
  then show ?thesis by (simp add: normalizePackageName_def)
qed

lemma normalize_strip_at:
  "normalizePackageName (filter (\<lambda>c. c \<noteq> CHR ''@'') s) = normalizePackageName s"
proof -
  have "replace_char CHR ''@'' [] (toLowerCase (filter (\<lambda>c. c \<noteq> CHR ''@'') s))
      = replace_char CHR ''@'' [] (toLowerCase s)"
    by (induction s) (auto simp: replace_char_def toLowerCase_def toLowerCase_char_at)
  then show ?thesis by (simp add: normalizePackageName_def)
qed

lemma name_tokens_concat: "concat (name_tokens s) = s"
  by (induction s rule: name_tokens.induct) simp_all

lemma name_tokens_shape:
  "t \<in> set (name_tokens s) \<Longrightarrow>
     (t \<noteq> [] \<and> set t \<subseteq> {CHR ''_''}) \<or> (\<exists>c. c \<noteq> CHR ''_'' \<and> t = [c])"
proof (induction s rule: name_tokens.induct)
  case 1
  then show ?case by simp
next
  case (2 c cs)
  show ?case
  proof (cases "c = CHR ''_''")
    case True
    let ?run = "c # takeWhile (\<lambda>x. x = CHR ''_'') cs"
    have run: "?run \<noteq> [] \<and> set ?run \<subseteq> {CHR ''_''}"
      using True by (auto dest: set_takeWhileD)
    from 2(3) True
    have "t = ?run \<or> t \<in> set (name_tokens (dropWhile (\<lambda>x. x = CHR ''_'') cs))"
      by simp
    with run 2(1) [OF True] show ?thesis by blast
  next
    case False
    from 2(3) False have "t = [c] \<or> t \<in> set (name_tokens cs)" by simp
    with False 2(2) [OF False] show ?thesis by blast
  qed
qed

lemma replace_underscores_True:
  "replace_underscores True cs
     = takeWhile (\<lambda>x. x = CHR ''_'') cs @ ''__''
       @ replace_underscores False (dropWhile (\<lambda>x. x = CHR ''_'') cs)"
proof (induction cs)
  case Nil
  then show ?case by simp
next
  case (Cons c cs)
  then show ?case by (cases cs) auto
qed

lemma replace_underscores_tokens:
  "replace_underscores False s
     = concat (map (\<lambda>t. if hd t = CHR ''_'' then t @ ''__'' else t) (name_tokens s))"
proof (induction s rule: name_tokens.induct)
  case 1
  then show ?case by simp
next
  case (2 c cs)
  show ?case
  proof (cases "c = CHR ''_''")
    case True
    with 2(1) show ?thesis by (simp add: replace_underscores_True)
  next
    case False
    with 2(2) show ?thesis by simp
  qed
qed

lemma replace_char_concat:
  "replace_char c by (concat xs) = concat (map (replace_char c by) xs)"
  by (induction xs) (simp_all add: replace_char_def)

lemma replace_at_filter: "replace_char CHR ''@'' [] s = filter (\<lambda>c. c \<noteq> CHR ''@'') s"
  by (induction s) (simp_all add: replace_char_def)

lemma encode_token_steps:
  assumes "(t \<noteq> [] \<and> set t \<subseteq> {CHR ''_''}) \<or> (\<exists>c. c \<noteq> CHR ''_'' \<and> t = [c])"
  shows "replace_char CHR ''-'' ''_''
           (replace_char CHR ''.'' ''__dot__''
              (replace_char CHR ''/'' ''__slash__''
                 (if hd t = CHR ''_'' then t @ ''__'' else t)))
         = encode_token t"
proof -
  from assms consider (run) "t \<noteq> []" "set t \<subseteq> {CHR ''_''}" | (one) c where "c \<noteq> CHR ''_''" "t = [c]"
    by blast
  then show ?thesis
  proof cases
    case run
    then have h: "hd t = CHR ''_''" by (cases t) auto
    have a: "\<And>c by. c \<noteq> CHR ''_'' \<Longrightarrow> replace_char c by (t @ ''__'') = t @ ''__''"
      using run(2) by (intro replace_char_absent) auto
    show ?thesis by (simp add: h encode_token_def a)
  next
    case one
    then show ?thesis by (auto simp: encode_token_def replace_char_def)
  qed
qed

lemma normalize_tokens:
  "normalizePackageName s
     = concat (map encode_token (name_tokens (filter (\<lambda>c. c \<noteq> CHR ''@'') (toLowerCase s))))"
proof -
  let ?s = "filter (\<lambda>c. c \<noteq> CHR ''@'') (toLowerCase s)"
  let ?u = "\<lambda>t. if hd t = CHR ''_'' then t @ ''__'' else t"
  have "normalizePackageName s
      = concat (map (\<lambda>t. replace_char CHR ''-'' ''_''
           (replace_char CHR ''.'' ''__dot__''
              (replace_char CHR ''/'' ''__slash__'' (?u t)))) (name_tokens ?s))"
    by (simp add: normalizePackageName_def replace_at_filter replace_underscores_tokens
        replace_char_concat comp_def del: replace_underscores.simps)
  also have "\<dots> = concat (map encode_token (name_tokens ?s))"
    using encode_token_steps [OF name_tokens_shape]
    by (intro arg_cong [where f = concat] map_cong refl) blast
  finally show ?thesis .
qed

text \<open>
  The claim as stated fails: a run of underscores grows by two underscores (\<open>_\<close> becomes
  \<open>___\<close>, not \<open>__\<close>), and the function is not injective on \<open>[a-z0-9@/._-]\<close>: \<open>@\<close> is
  dropped, a dash becomes what a short run of underscores becomes, and the words \<open>slash\<close>
  and \<open>dot\<close> between underscores read like the code words of \<open>/\<close> and \<open>.\<close>.
\<close>

theorem normalize_counterexample:
  "list_all name_char ''@a'' \<and> list_all name_char ''a'' \<and> ''@a'' \<noteq> ''a''
   \<and> normalizePackageName ''@a'' = normalizePackageName ''a''
   \<and> list_all name_char ''---'' \<and> list_all name_char ''_'' \<and> ''---'' \<noteq> ''_''
   \<and> normalizePackageName ''---'' = normalizePackageName ''_''
   \<and> list_all name_char ''_/_'' \<and> list_all name_char ''___slash___''
   \<and> normalizePackageName ''_/_'' = normalizePackageName ''___slash___''
   \<and> list_all name_char ''--slash--'' \<and> list_all name_char ''/''
   \<and> normalizePackageName ''--slash--'' = normalizePackageName ''/''
   \<and> normalizePackageName ''_'' = ''___'' \<and> normalizePackageName ''_'' \<noteq> ''__''"
  by code_simp

text \<open>
  C4 (as amended). The normalization lower-cases its input and drops \<open>@\<close>; then every
  maximal run of \<open>n\<close> underscores becomes \<open>n + 2\<close> underscores, every \<open>/\<close> becomes
  \<open>__slash__\<close>, every \<open>.\<close> becomes \<open>__dot__\<close>, every \<open>-\<close> becomes \<open>_\<close>, and every other
  character stays: the result is the concatenation of the code words of the tokens of
  the lower-cased name without \<open>@\<close>, where the tokens cut the name into its maximal runs
  of underscores and its other characters. In particular a name of \<open>n\<close> underscores
  becomes \<open>n + 2\<close> underscores, a dash becomes an underscore, and a name over \<open>[a-z0-9/.]\<close>
  becomes the concatenation of its characters with \<open>/\<close> replaced by \<open>__slash__\<close> and \<open>.\<close>
  by \<open>__dot__\<close>; on names over \<open>[a-z0-9/.]\<close> the normalization is injective.
\<close>

theorem normalize_amended:
  "normalizePackageName (toLowerCase s) = normalizePackageName s
   \<and> normalizePackageName (filter (\<lambda>c. c \<noteq> CHR ''@'') s) = normalizePackageName s
   \<and> normalizePackageName s
       = concat (map encode_token (name_tokens (filter (\<lambda>c. c \<noteq> CHR ''@'') (toLowerCase s))))
   \<and> concat (name_tokens s) = s
   \<and> normalizePackageName (replicate (Suc n) CHR ''_'') = replicate (Suc n + 2) CHR ''_''
   \<and> normalizePackageName ''-'' = ''_''
   \<and> (list_all plain_char x \<longrightarrow> normalizePackageName x = concat (map encode_char x))
   \<and> (list_all plain_char x \<and> list_all plain_char y
        \<and> normalizePackageName x = normalizePackageName y \<longrightarrow> x = y)"
proof -
  have dash: "normalizePackageName ''-'' = ''_''" by code_simp
  have inj: "list_all plain_char x \<and> list_all plain_char y
        \<and> normalizePackageName x = normalizePackageName y \<longrightarrow> x = y"
  proof (intro impI, elim conjE)
    assume a: "list_all plain_char x" "list_all plain_char y"
      and "normalizePackageName x = normalizePackageName y"
    then have "concat (map encode_char x) = concat (map encode_char y)"
      by (simp add: normalize_plain)
    with a show "x = y" by (rule encode_inj)
  qed
  have plain: "list_all plain_char x \<longrightarrow> normalizePackageName x = concat (map encode_char x)"
    using normalize_plain by blast
  show ?thesis
    by (intro conjI)
      (rule normalize_lower normalize_strip_at normalize_tokens name_tokens_concat normalize_run
        dash plain inj)+
qed

theorem normalize_amended_witness:
  "list_all plain_char ''scope/pkg.js''
   \<and> normalizePackageName ''scope/pkg.js'' = ''scope__slash__pkg__dot__js''
   \<and> normalizePackageName ''@Scope/Pkg.js'' = normalizePackageName ''scope/pkg.js''
   \<and> normalizePackageName ''__'' = ''____''
   \<and> name_tokens ''a__b-c_'' = [''a'', ''__'', ''b'', ''-'', ''c'', ''_'']
   \<and> normalizePackageName ''a_b'' = ''a___b''
   \<and> normalizePackageName ''my-pkg'' = ''my_pkg''
   \<and> normalizePackageName ''@My-Scope/a_b__c.js'' = ''my_scope__slash__a___b____c__dot__js''"
proof -
  have h: "list_all plain_char ''scope/pkg.js''" by code_simp
  have e: "concat (map encode_char ''scope/pkg.js'') = ''scope__slash__pkg__dot__js''" by code_simp
  have l: "toLowerCase ''@Scope/Pkg.js'' = ''@scope/pkg.js''" by code_simp
  note t = normalize_amended [of "''@Scope/Pkg.js''" 1 "''scope/pkg.js''" "''scope/pkg.js''"]
  note u = normalize_amended [of "''@scope/pkg.js''" 1 "''scope/pkg.js''" "''scope/pkg.js''"]
  from t h e have a: "normalizePackageName ''scope/pkg.js'' = ''scope__slash__pkg__dot__js''" by simp
  from t l have "normalizePackageName ''@Scope/Pkg.js'' = normalizePackageName ''@scope/pkg.js''" by simp
  moreover from u have "normalizePackageName ''@scope/pkg.js'' = normalizePackageName ''scope/pkg.js''" by simp
  ultimately have b: "normalizePackageName ''@Scope/Pkg.js'' = normalizePackageName ''scope/pkg.js''" by simp
  from t have c: "normalizePackageName ''__'' = ''____''" by (simp add: numeral_2_eq_2)
  have k: "name_tokens ''a__b-c_'' = [''a'', ''__'', ''b'', ''-'', ''c'', ''_'']" by code_simp
  have t1: "concat (map encode_token (name_tokens (filter (\<lambda>c. c \<noteq> CHR ''@'') (toLowerCase ''a_b''))))
      = ''a___b''" by code_simp
  have t2: "concat (map encode_token (name_tokens (filter (\<lambda>c. c \<noteq> CHR ''@'') (toLowerCase ''my-pkg''))))
      = ''my_pkg''" by code_simp
  have t3: "concat (map encode_token
        (name_tokens (filter (\<lambda>c. c \<noteq> CHR ''@'') (toLowerCase ''@My-Scope/a_b__c.js''))))
      = ''my_scope__slash__a___b____c__dot__js''" by code_simp
  from normalize_amended [of "''a_b''" 1 "[]" "[]"] t1
  have n1: "normalizePackageName ''a_b'' = ''a___b''" by (elim conjE) (rule trans)
  from normalize_amended [of "''my-pkg''" 1 "[]" "[]"] t2
  have n2: "normalizePackageName ''my-pkg'' = ''my_pkg''" by (elim conjE) (rule trans)
  from normalize_amended [of "''@My-Scope/a_b__c.js''" 1 "[]" "[]"] t3
  have n3: "normalizePackageName ''@My-Scope/a_b__c.js'' = ''my_scope__slash__a___b____c__dot__js''"
    by (elim conjE) (rule trans)
  show ?thesis by (intro conjI) (rule h a b c k n1 n2 n3)+
qed

section \<open>Properties of the builder\<close>

lemma emitsI:
  "(\<And>w. \<exists>new. events (snd (m w)) = events w @ new \<and> list_all P new) \<Longrightarrow> emits P m"
  by (simp add: emits_def)

lemma emitsD: "emits P m \<Longrightarrow> \<exists>new. events (snd (m w)) = events w @ new \<and> list_all P new"
  by (simp add: emits_def)



lemma emits_bind:
  assumes "emits P m" "\<And>a. emits P (k a)"
  shows "emits P (io_bind m k)"
proof (rule emitsI)
  fix w
  obtain r w1 where m: "m w = (r, w1)" by force
  from emitsD [OF assms(1), of w] m obtain n1 where
    n1: "events w1 = events w @ n1" "list_all P n1" by auto
  show "\<exists>new. events (snd (io_bind m k w)) = events w @ new \<and> list_all P new"
  proof (cases r)
    case (Inl e)
    with m n1 show ?thesis by (auto simp: io_bind_def)
  next
    case (Inr a)
    from emitsD [OF assms(2), of a w1] obtain n2 where
      "events (snd (k a w1)) = events w1 @ n2" "list_all P n2" by auto
    with m n1 Inr show ?thesis by (auto simp: io_bind_def)
  qed
qed


















































text \<open>
  C2. The build \<open>pkg\<close> has one command, which installs a file that names the staging
  directory. \<open>performBuild\<close> succeeds; after the command its calls are the walk, the
  rename, and only then the first call of the first rewrite task, which fails because
  the staging path is gone; the published file still names the staging directory. So
  the rename does not wait for the rewrite.
\<close>

theorem rename_before_rewrite:
  "fst (performBuild host0 pkg cfg0 sandbox_pkg world0) = Inr ()
   \<and> drop 15 (events (snd (performBuild host0 pkg cfg0 sandbox_pkg world0)))
       = [Exec (''source /store/_build/abc/_esy/env;'' @ [CHR 0x0A] @ ''make install'') ''/sandbox/node_modules/pkg'',
          Walk ''/store/_insttmp/abc'',
          Rename ''/store/_insttmp/abc'' ''/store/_install/abc'',
          Stat ''/store/_insttmp/abc/lib'']
   \<and> map_of (files (snd (performBuild host0 pkg cfg0 sandbox_pkg world0)))
         ''/store/_install/abc/lib/META'' = Some (File ''prefix=/store/_insttmp/abc'' 420)"
  by code_simp

text \<open>
  C1. The rewrite step, run to its end on a staging directory whose file \<open>pkg.pc\<close>
  names the staging directory twice: the first occurrence is overwritten, the second
  stays, so the file still contains the staging prefix (at offset 34).
\<close>

theorem rewrite_leaves_second_occurrence:
  "fst (fs_walk (getInstallPath cfg0 pkg []) staged)
     = Inr [\<lparr>relative = ''lib'', absolute = ''/store/_insttmp/abc/lib''\<rparr>,
            \<lparr>relative = ''lib/pkg.pc'', absolute = ''/store/_insttmp/abc/lib/pkg.pc''\<rparr>]
   \<and> map_of (files (snd (rewrite_chain
         (map (rewrite_task (getInstallPath cfg0 pkg []) (getFinalInstallPath cfg0 pkg []))
            [\<lparr>relative = ''lib'', absolute = ''/store/_insttmp/abc/lib''\<rparr>,
             \<lparr>relative = ''lib/pkg.pc'', absolute = ''/store/_insttmp/abc/lib/pkg.pc''\<rparr>]) staged)))
       ''/store/_insttmp/abc/lib/pkg.pc''
     = Some (File (''prefix=/store/_install/abc'' @ [CHR 0x0A] @ ''libdir=/store/_insttmp/abc/lib'') 420)
   \<and> buffer_indexOf (''prefix=/store/_install/abc'' @ [CHR 0x0A] @ ''libdir=/store/_insttmp/abc/lib'')
         (getInstallPath cfg0 pkg []) = 34"
  by code_simp

section \<open>Properties of the hash script\<close>

text \<open>
  C10. With a saved hash in the folder, the script ends by a \<open>ReferenceError\<close> (the name
  \<open>Exception\<close> is not defined), not by an error with the message
  \<open>Hash file not available\<close>.
\<close>

theorem getOldHash_saved_hash:
  "existsSync hash_world (path_join [''/home/u/pkg'', ''.esy_hash''])
   \<and> getOldHash [''/home/u/pkg''] hash_world = Inl (ReferenceError ''Exception is not defined'')
   \<and> getOldHash [''/home/u/pkg''] hash_world \<noteq> Inl (Error ''Hash file not available'')"
  by code_simp

text \<open>Whatever the arguments and the files, the script prints nothing.\<close>

lemma getOldHash_never_prints: "getOldHash args fs \<noteq> Inr out"
  by (auto simp: getOldHash_def Let_def existsSync_def readFileSync_def readFile_op_def
      split: list.splits option.splits sum.splits node.splits)

lemma getOldHash_reads_when_absent:
  "\<not> existsSync fs (path_join [folder, ''.esy_hash'']) \<Longrightarrow>
     getOldHash (folder # rest) fs = Inl (Error ''ENOENT'')"
  by (simp add: getOldHash_def Let_def existsSync_def readFileSync_def readFile_op_def)

end
